theory Spec2Isabelle
  imports Main "HOL-Library.Word" "HOL-Library.Sublist"
begin

unbundle bit_operations_syntax

section \<open>Hasher: \<open>genHash\<close>\<close>

text \<open>
  Go strings and byte slices are sequences of bytes; \<open>string\<close> (a list of 8-bit
  characters) is used for both. \<open>of_char\<close> reads a character as its byte value.
\<close>

type_synonym bytes = string

text \<open>
  \<open>binary.NativeEndian\<close> is the byte order of the machine the program was built for:
  one of the two orders of \<open>encoding/binary\<close>. It is a parameter of everything that
  depends on \<open>genHash\<close>.
\<close>

datatype ByteOrder = LittleEndian | BigEndian

text \<open>
  \<open>hash/adler32\<close>: the digest starts at 1 (\<open>s1 = 1\<close>, \<open>s2 = 0\<close>); each byte adds
  itself to \<open>s1\<close> and the new \<open>s1\<close> to \<open>s2\<close>, both modulo 65521; \<open>Sum32\<close> is
  \<open>s2 << 16 | s1\<close>.
\<close>

definition adler_mod :: nat where
  "adler_mod = 65521"

fun adler32_update :: "nat \<times> nat \<Rightarrow> bytes \<Rightarrow> nat \<times> nat" where
  "adler32_update (s1, s2) [] = (s1, s2)"
| "adler32_update (s1, s2) (x # p) =
     (let s1' = (s1 + of_char x) mod adler_mod;
          s2' = (s2 + s1') mod adler_mod
      in adler32_update (s1', s2') p)"

definition Sum32 :: "bytes \<Rightarrow> 32 word" where
  "Sum32 p = (case adler32_update (1, 0) p of
                (s1, s2) \<Rightarrow> push_bit 16 (word_of_nat s2) OR word_of_nat s1)"

text \<open>\<open>ByteOrder.PutUint32\<close> on a slice of 4 bytes.\<close>

definition PutUint32 :: "ByteOrder \<Rightarrow> 32 word \<Rightarrow> 8 word list" where
  "PutUint32 order v =
     (case order of
        LittleEndian \<Rightarrow>
          [ucast v, ucast (drop_bit 8 v), ucast (drop_bit 16 v), ucast (drop_bit 24 v)]
      | BigEndian \<Rightarrow>
          [ucast (drop_bit 24 v), ucast (drop_bit 16 v), ucast (drop_bit 8 v), ucast v])"

text \<open>
  \<open>base64.RawURLEncoding\<close>: the URL-safe alphabet, no padding. Three bytes give four
  characters; a last group of one byte gives two, of two bytes three.
\<close>

definition encodeURL :: string where
  "encodeURL = ''ABCDEFGHIJKLMNOPQRSTUVWXYZabcdefghijklmnopqrstuvwxyz0123456789-_''"

definition encode :: "nat \<Rightarrow> char" where
  "encode i = encodeURL ! (i mod 64)"

fun EncodeToString :: "8 word list \<Rightarrow> string" where
  "EncodeToString (a # b # c # src) =
     (let val = unat a * 65536 + unat b * 256 + unat c
      in [encode (val div 2 ^ 18), encode (val div 2 ^ 12), encode (val div 2 ^ 6), encode val]
         @ EncodeToString src)"
| "EncodeToString [a, b] =
     (let val = unat a * 65536 + unat b * 256
      in [encode (val div 2 ^ 18), encode (val div 2 ^ 12), encode (val div 2 ^ 6)])"
| "EncodeToString [a] =
     (let val = unat a * 65536
      in [encode (val div 2 ^ 18), encode (val div 2 ^ 12)])"
| "EncodeToString [] = []"

definition genHash :: "ByteOrder \<Rightarrow> bytes \<Rightarrow> string" where
  "genHash NativeEndian inp = EncodeToString (PutUint32 NativeEndian (Sum32 inp))"


section \<open>Scope transformer: \<open>Process\<close>\<close>

subsection \<open>The token stream\<close>

text \<open>
  The token types of the CSS lexer, \<open>ErrorToken\<close> apart. The lexer returns
  \<open>ErrorToken\<close> only when its input has an error (\<open>Err()\<close> is not nil), and from
  then on at every call; for an input held in memory that error is \<open>io.EOF\<close>. A lexer
  is therefore the list of the tokens it will still return and the error it reports once
  they are used up: \<open>zz.Next()\<close> on the empty list is \<open>ErrorToken\<close>.
\<close>

datatype TokenType =
    IdentToken | FunctionToken | AtKeywordToken | HashToken | StringToken | BadStringToken
  | URLToken | BadURLToken | DelimToken | NumberToken | PercentageToken | DimensionToken
  | UnicodeRangeToken | IncludeMatchToken | DashMatchToken | PrefixMatchToken
  | SuffixMatchToken | SubstringMatchToken | ColumnToken | WhitespaceToken | CDOToken
  | CDCToken | ColonToken | SemicolonToken | CommaToken | LeftBracketToken
  | RightBracketToken | LeftParenthesisToken | RightParenthesisToken | LeftBraceToken
  | RightBraceToken | CommentToken | EmptyToken | CustomPropertyNameToken
  | CustomPropertyValueToken

type_synonym token = "TokenType \<times> bytes"

datatype error = EOF | LexError string

record Lexer =
  tokens :: "token list"
  Err :: error

subsection \<open>The buffers and the mapping\<close>

record pstate =
  out :: bytes
  tmp :: bytes
  scopedClasses :: "string \<rightharpoonup> string"

definition out_Write :: "bytes \<Rightarrow> pstate \<Rightarrow> pstate" where
  "out_Write data st = st\<lparr>out := out st @ data\<rparr>"

definition tmp_Write :: "bytes \<Rightarrow> pstate \<Rightarrow> pstate" where
  "tmp_Write data st = st\<lparr>tmp := tmp st @ data\<rparr>"

text \<open>\<open>tmp.WriteTo(&out)\<close>: the bytes of \<open>tmp\<close> move to \<open>out\<close>, and \<open>tmp\<close> is left empty.
  Writing to a \<open>bytes.Buffer\<close> returns no error.\<close>

definition tmp_WriteTo_out :: "pstate \<Rightarrow> pstate" where
  "tmp_WriteTo_out st = st\<lparr>out := out st @ tmp st, tmp := []\<rparr>"

definition tmp_Reset :: "pstate \<Rightarrow> pstate" where
  "tmp_Reset st = st\<lparr>tmp := []\<rparr>"

definition addScopedName :: "string \<Rightarrow> bytes \<Rightarrow> pstate \<Rightarrow> pstate" where
  "addScopedName hash rawNameBytes st =
     (let rawName = rawNameBytes;
          scopedName = rawName @ ''_'' @ hash
      in st\<lparr>scopedClasses := (scopedClasses st)(rawName \<mapsto> scopedName),
            out := out st @ scopedName\<rparr>)"

subsection \<open>The three loops\<close>

text \<open>
  \<open>mainLoop\<close> is the labelled loop of \<open>Process\<close>, \<open>globalLoop\<close> the loop after
  \<open>:global\<close> with its \<open>braceCount\<close>, \<open>mediaLoop\<close> the loop after an at-keyword
  followed by the identifier \<open>media\<close>. An \<open>ErrorToken\<close> inside a branch is
  \<open>continue mainLoop\<close>: the main loop then reads \<open>ErrorToken\<close> again and returns.
\<close>

fun mainLoop :: "string \<Rightarrow> error \<Rightarrow> token list \<Rightarrow> pstate \<Rightarrow> error + bytes \<times> (string \<rightharpoonup> string)"
  and globalLoop :: "string \<Rightarrow> error \<Rightarrow> int \<Rightarrow> token list \<Rightarrow> pstate \<Rightarrow> error + bytes \<times> (string \<rightharpoonup> string)"
  and mediaLoop :: "string \<Rightarrow> error \<Rightarrow> token list \<Rightarrow> pstate \<Rightarrow> error + bytes \<times> (string \<rightharpoonup> string)"
where
  "mainLoop hash err [] st =
     (case err of EOF \<Rightarrow> Inr (out st, scopedClasses st) | LexError e \<Rightarrow> Inl (LexError e))"
| "mainLoop hash err ((zt, data) # zz) st =
     (let st = tmp_Write data st in
      if zt = ColonToken then
        (case zz of
           [] \<Rightarrow> mainLoop hash err [] st
         | (zt, data) # zz \<Rightarrow>
             if zt \<noteq> IdentToken then mainLoop hash err zz (out_Write data (tmp_WriteTo_out st))
             else if data \<noteq> ''global'' then mainLoop hash err zz (out_Write data (tmp_WriteTo_out st))
             else globalLoop hash err 0 zz st)
      else if zt = AtKeywordToken then
        (let st = tmp_WriteTo_out st in
         case zz of
           [] \<Rightarrow> mainLoop hash err [] st
         | (zt, data) # zz \<Rightarrow>
             (let st = out_Write data st in
              if zt \<noteq> IdentToken then mainLoop hash err zz st
              else if data \<noteq> ''media'' then mainLoop hash err zz st
              else mediaLoop hash err zz st))
      else if zt = DelimToken \<and> data = ''.'' then
        (let st = tmp_WriteTo_out st in
         case zz of
           [] \<Rightarrow> mainLoop hash err [] st
         | (zt, data) # zz \<Rightarrow>
             if zt \<noteq> IdentToken then mainLoop hash err zz (out_Write data st)
             else mainLoop hash err zz (tmp_Reset (addScopedName hash data st)))
      else mainLoop hash err zz (tmp_Reset (tmp_WriteTo_out st)))"
| "globalLoop hash err braceCount [] st = mainLoop hash err [] st"
| "globalLoop hash err braceCount ((zt, data) # zz) st =
     (if zt = LeftBraceToken then
        (let st = (if braceCount \<noteq> 0 then out_Write data st else st);
             braceCount = braceCount + 1
         in globalLoop hash err braceCount zz st)
      else if zt = RightBraceToken then
        (let st = (if braceCount \<noteq> 1 then out_Write data st else st);
             braceCount = braceCount - 1
         in if braceCount \<le> 0 then mainLoop hash err zz (tmp_Reset st)
            else globalLoop hash err braceCount zz st)
      else globalLoop hash err braceCount zz (out_Write data st))"
| "mediaLoop hash err [] st = mainLoop hash err [] st"
| "mediaLoop hash err ((zt, data) # zz) st =
     (let st = out_Write data st;
          braceCount = (0::int)
      in if zt = DelimToken \<and> data = ''.'' then
           (case zz of
              [] \<Rightarrow> mainLoop hash err [] st
            | (zt, data) # zz \<Rightarrow>
                if zt \<noteq> IdentToken then mediaLoop hash err zz (out_Write data st)
                else mediaLoop hash err zz (addScopedName hash data st))
         else if zt = LeftBraceToken then
           (let braceCount = braceCount + 1 in mediaLoop hash err zz st)
         else if zt = RightBraceToken then
           (let braceCount = braceCount - 1
            in if braceCount \<le> 0 then mainLoop hash err zz (tmp_Reset st)
               else mediaLoop hash err zz st)
         else mediaLoop hash err zz st)"

text \<open>
  \<open>Process\<close>: the fingerprint of the whole text, a lexer over it, and the main loop from
  empty buffers and an empty mapping. \<open>NewLexer\<close> stands for
  \<open>css.NewLexer(parse.NewInputBytes(in))\<close>, the tokenizer of another package.
\<close>

definition Process ::
  "ByteOrder \<Rightarrow> (bytes \<Rightarrow> Lexer) \<Rightarrow> string \<Rightarrow> error + bytes \<times> (string \<rightharpoonup> string)" where
  "Process NativeEndian NewLexer styles =
     (let inp = styles;
          hash = genHash NativeEndian inp;
          zz = NewLexer inp
      in mainLoop hash (Err zz) (tokens zz) \<lparr>out = [], tmp = [], scopedClasses = Map.empty\<rparr>)"

section \<open>Aggregator: \<open>Collector\<close>\<close>

record Collector =
  rules :: "string \<rightharpoonup> (string \<rightharpoonup> string)"
  styles :: bytes

text \<open>\<open>Classes\<close> returns the mapping (or the error of \<open>Process\<close>) and the collector as
  the call leaves it. A nil \<open>rules\<close> map is the empty map.\<close>

definition Classes ::
  "ByteOrder \<Rightarrow> (bytes \<Rightarrow> Lexer) \<Rightarrow> Collector \<Rightarrow> string
     \<Rightarrow> (error + (string \<rightharpoonup> string)) \<times> Collector" where
  "Classes NativeEndian NewLexer c rs =
     (case rules c rs of
        Some m \<Rightarrow> (Inr m, c)
      | None \<Rightarrow>
          (case Process NativeEndian NewLexer rs of
             Inl err \<Rightarrow> (Inl err, c)
           | Inr (sty, mapping) \<Rightarrow>
               (Inr mapping,
                c\<lparr>styles := styles c @ sty @ [CHR 0x0A], rules := (rules c)(rs \<mapsto> mapping)\<rparr>)))"

text \<open>
  A panic is a result of its own. \<open>NoClassFound name\<close> is
  \<open>panic(fmt.Sprintf("no class found %q", name))\<close>, \<open>PanicError err\<close> is \<open>panic(err)\<close>,
  \<open>InvalidWriteCount\<close> the panic of \<open>bytes.Buffer.WriteTo\<close>. \<open>Class name\<close> is the
  node \<open>h.Class(name)\<close>: the class attribute with that value.
\<close>

datatype panic = PanicError error | NoClassFound string | InvalidWriteCount

datatype Node = Class string

text \<open>The loop of \<open>C\<close> over \<open>className\<close> from index \<open>i\<close>, with the builder \<open>sb\<close>.\<close>

fun joinLoop :: "(string \<rightharpoonup> string) \<Rightarrow> nat \<Rightarrow> string list \<Rightarrow> string \<Rightarrow> panic + string" where
  "joinLoop mapping i [] sb = Inr sb"
| "joinLoop mapping i (name # className) sb =
     (let sb = (if i \<noteq> 0 then sb @ '' '' else sb)
      in case mapping name of
           Some mapped \<Rightarrow> joinLoop mapping (i + 1) className (sb @ mapped)
         | None \<Rightarrow> Inl (NoClassFound name))"

definition C ::
  "ByteOrder \<Rightarrow> (bytes \<Rightarrow> Lexer) \<Rightarrow> Collector \<Rightarrow> string \<Rightarrow> string list
     \<Rightarrow> (panic + Node) \<times> Collector" where
  "C NativeEndian NewLexer c rs className =
     (case Classes NativeEndian NewLexer c rs of
        (Inl err, c) \<Rightarrow> (Inl (PanicError err), c)
      | (Inr mapping, c) \<Rightarrow>
          if length className = 1 then
            (case mapping (className ! 0) of
               Some name \<Rightarrow> (Inr (Class name), c)
             | None \<Rightarrow> (Inl (NoClassFound (className ! 0)), c))
          else
            (case joinLoop mapping 0 className [] of
               Inl p \<Rightarrow> (Inl p, c)
             | Inr sb \<Rightarrow> (Inr (Class sb), c)))"

definition R ::
  "ByteOrder \<Rightarrow> (bytes \<Rightarrow> Lexer) \<Rightarrow> Collector \<Rightarrow> string \<Rightarrow> (panic + Node) \<times> Collector" where
  "R NativeEndian NewLexer c rs = C NativeEndian NewLexer c rs [''root'']"

subsection \<open>\<open>Render\<close>\<close>

text \<open>
  An \<open>io.Writer\<close> is its \<open>Write\<close>: from the bytes and the sink's state to the count of
  bytes written, an error or none, and the new state.
\<close>

datatype io_error = WriteError string | ErrShortWrite

type_synonym 'w Writer = "bytes \<Rightarrow> 'w \<Rightarrow> (nat \<times> io_error option) \<times> 'w"

text \<open>
  \<open>bytes.Buffer.WriteTo\<close>: one \<open>Write\<close> of the unread bytes, which the buffer then
  drops; a count beyond them panics, a short count without error is \<open>ErrShortWrite\<close>;
  after a full write the buffer is reset. The result is the outcome, the buffer as it is
  left, and the sink.
\<close>

definition Buffer_WriteTo ::
  "'w Writer \<Rightarrow> bytes \<Rightarrow> 'w \<Rightarrow> (panic + io_error option) \<times> bytes \<times> 'w" where
  "Buffer_WriteTo w b s =
     (let nBytes = length b in
      if nBytes > 0 then
        (case w b s of
           ((m, e), s) \<Rightarrow>
             if m > nBytes then (Inl InvalidWriteCount, b, s)
             else
               (let b = drop m b in
                if e \<noteq> None then (Inr e, b, s)
                else if m \<noteq> nBytes then (Inr (Some ErrShortWrite), b, s)
                else (Inr None, [], s)))
      else (Inr None, [], s))"

definition Render ::
  "'w Writer \<Rightarrow> Collector \<Rightarrow> 'w \<Rightarrow> (panic + io_error option) \<times> Collector \<times> 'w" where
  "Render w c s =
     (case w ''<style>'' s of
        ((n, Some err), s) \<Rightarrow> (Inr (Some err), c, s)
      | ((n, None), s) \<Rightarrow>
          (case Buffer_WriteTo w (styles c) s of
             (Inl p, b, s) \<Rightarrow> (Inl p, c\<lparr>styles := b\<rparr>, s)
           | (Inr (Some err), b, s) \<Rightarrow> (Inr (Some err), c\<lparr>styles := b\<rparr>, s)
           | (Inr None, b, s) \<Rightarrow>
               (case w ''</style>'' s of
                  ((n, Some err), s) \<Rightarrow> (Inr (Some err), c\<lparr>styles := b\<rparr>, s)
                | ((n, None), s) \<Rightarrow> (Inr None, c\<lparr>styles := b\<rparr>, s))))"

text \<open>A \<open>bytes.Buffer\<close> as the sink: \<open>Write\<close> appends everything and never fails.\<close>

definition Buffer_Write :: "bytes Writer" where
  "Buffer_Write p s = ((length p, None), s @ p)"

section \<open>Notions the properties are stated with\<close>

subsection \<open>The Adler-32 checksum, as sums\<close>

text \<open>
  The checksum in closed form: \<open>adler_s1 s p\<close> is \<open>s\<close> plus the sum of the bytes of
  \<open>p\<close>, \<open>adler_s2 s p\<close> the sum of \<open>adler_s1 s\<close> over the non-empty prefixes of \<open>p\<close>;
  Adler-32 takes both from \<open>s = 1\<close>, modulo 65521, the second in the high 16 bits.
\<close>

definition adler_s1 :: "nat \<Rightarrow> bytes \<Rightarrow> nat" where
  "adler_s1 s p = s + sum_list (map of_char p)"

definition adler_s2 :: "nat \<Rightarrow> bytes \<Rightarrow> nat" where
  "adler_s2 s p = (\<Sum>k\<leftarrow>[1..<Suc (length p)]. adler_s1 s (take k p))"

definition Adler32 :: "bytes \<Rightarrow> nat" where
  "Adler32 p = (adler_s2 1 p mod 65521) * 65536 + adler_s1 1 p mod 65521"

subsection \<open>Braces of the tokens inside a \<open>:global\<close> wrapper\<close>

text \<open>
  \<open>brace_depth n ts\<close> is the number of braces open after \<open>ts\<close>, from \<open>n\<close> open ones;
  \<open>None\<close> when a right brace comes with none open (it would close the wrapper).
\<close>

fun brace_depth :: "nat \<Rightarrow> token list \<Rightarrow> nat option" where
  "brace_depth n [] = Some n"
| "brace_depth n (t # ts) =
     (if fst t = LeftBraceToken then brace_depth (Suc n) ts
      else if fst t = RightBraceToken then (if n = 0 then None else brace_depth (n - 1) ts)
      else brace_depth n ts)"

definition no_braces :: "token list \<Rightarrow> bool" where
  "no_braces ts = list_all (\<lambda>t. fst t \<noteq> LeftBraceToken \<and> fst t \<noteq> RightBraceToken) ts"

subsection \<open>Class selectors outside \<open>:global\<close> blocks\<close>

text \<open>
  The tokens after which \<open>Process\<close> reads one more token before it decides: a colon, an
  at-keyword, the delimiter \<open>.\<close>.
\<close>

definition takes_lookahead :: "token \<Rightarrow> bool" where
  "takes_lookahead t = (fst t = ColonToken \<or> fst t = AtKeywordToken \<or> t = (DelimToken, ''.''))"

text \<open>
  A scan of the token stream for its bare class selectors. Outside a \<open>:global\<close> block, a
  colon followed by the identifier \<open>global\<close> opens a block, and a \<open>.\<close> delimiter
  followed by an identifier is a class selector with that name. Inside a block (\<open>Inside n\<close>,
  with \<open>n\<close> braces open) a left brace opens one more brace and a right brace closes one;
  the block ends with the right brace that leaves none open. The flag \<open>b\<close> says that the
  token before disqualifies a \<open>.\<close> here, \<open>bad\<close> which tokens do so: none of them
  (\<open>\<lambda>t. False\<close>) for every \<open>.\<close> followed by an identifier, \<open>takes_lookahead\<close> for
  those that do not come right after a colon, an at-keyword or another \<open>.\<close>.
\<close>

datatype region = Outside | Inside nat

definition never :: "token \<Rightarrow> bool" where
  "never t = False"

definition opens_global :: "token \<Rightarrow> token list \<Rightarrow> bool" where
  "opens_global t ts =
     (fst t = ColonToken \<and> (case ts of [] \<Rightarrow> False | u # us \<Rightarrow> u = (IdentToken, ''global'')))"

definition selector_at :: "bool \<Rightarrow> token \<Rightarrow> token list \<Rightarrow> string list" where
  "selector_at b t ts =
     (case ts of
        [] \<Rightarrow> []
      | u # us \<Rightarrow> if t = (DelimToken, ''.'') \<and> \<not> b \<and> fst u = IdentToken then [snd u] else [])"

fun class_selectors :: "(token \<Rightarrow> bool) \<Rightarrow> region \<Rightarrow> bool \<Rightarrow> token list \<Rightarrow> string list" where
  "class_selectors bad r b [] = []"
| "class_selectors bad (Inside n) b (t # ts) =
     (if fst t = LeftBraceToken then class_selectors bad (Inside (Suc n)) (bad t) ts
      else if fst t = RightBraceToken then
        (if n \<le> 1 then class_selectors bad Outside (bad t) ts
         else class_selectors bad (Inside (n - 1)) (bad t) ts)
      else class_selectors bad (Inside n) (bad t) ts)"
| "class_selectors bad Outside b (t # ts) =
     (if opens_global t ts then class_selectors bad (Inside 0) (bad t) ts
      else selector_at b t ts @ class_selectors bad Outside (bad t) ts)"

subsection \<open>Streams without a \<open>:global\<close> or \<open>media\<close> marker\<close>

text \<open>No colon is followed by the identifier \<open>global\<close>, no at-keyword by the identifier
  \<open>media\<close>: \<open>Process\<close> stays in its main loop.\<close>

fun no_marker :: "token list \<Rightarrow> bool" where
  "no_marker (t # u # ts) =
     (\<not> (fst t = ColonToken \<and> u = (IdentToken, ''global'')) \<and>
      \<not> (fst t = AtKeywordToken \<and> u = (IdentToken, ''media'')) \<and> no_marker (u # ts))"
| "no_marker ts = True"

subsection \<open>Token streams of the examples\<close>

text \<open>
  The tokens of \<open>:global {.test-class { color: red; font-size: large; }}\<close> under the CSS
  tokenization: a colon, identifiers, whitespace, braces, the delimiter \<open>.\<close>, semicolons.
\<close>

definition ws :: token where
  "ws = (WhitespaceToken, '' '')"

definition global_block_tokens :: "token list" where
  "global_block_tokens =
     [(ColonToken, '':''), (IdentToken, ''global''), ws, (LeftBraceToken, ''{''),
      (DelimToken, ''.''), (IdentToken, ''test-class''), ws, (LeftBraceToken, ''{''), ws,
      (IdentToken, ''color''), (ColonToken, '':''), ws, (IdentToken, ''red''),
      (SemicolonToken, '';''), ws,
      (IdentToken, ''font-size''), (ColonToken, '':''), ws, (IdentToken, ''large''),
      (SemicolonToken, '';''), ws,
      (RightBraceToken, ''}''), (RightBraceToken, ''}'')]"

text \<open>The tokens of \<open>.test-class { color: red; font-size: large; }\<close>.\<close>

definition class_rule_tokens :: "token list" where
  "class_rule_tokens =
     [(DelimToken, ''.''), (IdentToken, ''test-class''), ws, (LeftBraceToken, ''{''), ws,
      (IdentToken, ''color''), (ColonToken, '':''), ws, (IdentToken, ''red''),
      (SemicolonToken, '';''), ws,
      (IdentToken, ''font-size''), (ColonToken, '':''), ws, (IdentToken, ''large''),
      (SemicolonToken, '';''), ws,
      (RightBraceToken, ''}'')]"

text \<open>The tokens of \<open>:global {.test-class { color: red; }\<close>, whose wrapper is not closed.\<close>

definition open_global_tokens :: "token list" where
  "open_global_tokens =
     [(ColonToken, '':''), (IdentToken, ''global''), ws, (LeftBraceToken, ''{''),
      (DelimToken, ''.''), (IdentToken, ''test-class''), ws, (LeftBraceToken, ''{''), ws,
      (IdentToken, ''color''), (ColonToken, '':''), ws, (IdentToken, ''red''),
      (SemicolonToken, '';''), ws,
      (RightBraceToken, ''}'')]"

text \<open>
  The tokens of \<open>@media{a{}:global{.b{}}}\<close>. The at-keyword token holds \<open>@media\<close>
  whole, name included; the token after it is the block's left brace.
\<close>

definition media_nested_tokens :: "token list" where
  "media_nested_tokens =
     [(AtKeywordToken, ''@media''), (LeftBraceToken, ''{''),
      (IdentToken, ''a''), (LeftBraceToken, ''{''), (RightBraceToken, ''}''),
      (ColonToken, '':''), (IdentToken, ''global''), (LeftBraceToken, ''{''),
      (DelimToken, ''.''), (IdentToken, ''b''), (LeftBraceToken, ''{''), (RightBraceToken, ''}''),
      (RightBraceToken, ''}''), (RightBraceToken, ''}'')]"

text \<open>A lexer that returns the given tokens and then reports the end of the input.\<close>

definition lexer_of :: "token list \<Rightarrow> bytes \<Rightarrow> Lexer" where
  "lexer_of ts inp = \<lparr>tokens = ts, Err = EOF\<rparr>"

text \<open>The tokens of \<open>.a\<close>, and a collector as it is created.\<close>

definition dot_a_tokens :: "token list" where
  "dot_a_tokens = [(DelimToken, ''.''), (IdentToken, ''a'')]"

definition empty_Collector :: Collector where
  "empty_Collector = \<lparr>rules = Map.empty, styles = []\<rparr>"

text \<open>A state, and a result, that records \<open>x\<close> under the fingerprint \<open>h\<close>.\<close>

definition has :: "string \<Rightarrow> string \<Rightarrow> pstate \<Rightarrow> bool" where
  "has h x st = (scopedClasses st x = Some (x @ ''_'' @ h))"

definition recorded :: "string \<Rightarrow> string \<Rightarrow> error + bytes \<times> (string \<rightharpoonup> string) \<Rightarrow> bool" where
  "recorded h x r = (case r of Inl e \<Rightarrow> False | Inr (ou, m) \<Rightarrow> m x = Some (x @ ''_'' @ h))"

abbreviation cs :: "region \<Rightarrow> bool \<Rightarrow> token list \<Rightarrow> string list" where
  "cs \<equiv> class_selectors takes_lookahead"

section \<open>The fingerprint\<close>

lemma adler_s2_Cons: "adler_s2 s (x # p) = (s + of_char x) + adler_s2 (s + of_char x) p"
proof -
  have "[1..<Suc (Suc (length p))] = 1 # map Suc [1..<Suc (length p)]"
    by (simp add: upt_conv_Cons map_Suc_upt del: upt_Suc)
  then show ?thesis
    by (simp add: adler_s2_def adler_s1_def comp_def add.assoc del: upt_Suc)
qed

lemma adler_s2_shift: "adler_s2 s p = length p * s + adler_s2 0 p"
proof (induction p arbitrary: s)
  case Nil
  then show ?case by (simp add: adler_s2_def)
next
  case (Cons x p)
  show ?case
    using Cons.IH [of "s + of_char x"] Cons.IH [of "of_char x"]
    by (simp add: adler_s2_Cons algebra_simps)
qed

lemma mod_absorb: "(y + k * (a mod m)) mod m = (y + k * a) mod (m::nat)"
  by (metis mod_add_right_eq mod_mult_right_eq)

text \<open>Reducing at every byte, as the digest does, gives the sums reduced once.\<close>

lemma adler32_update_sums:
  "s1 < adler_mod \<Longrightarrow> s2 < adler_mod \<Longrightarrow>
   adler32_update (s1, s2) p = (adler_s1 s1 p mod adler_mod, (s2 + adler_s2 s1 p) mod adler_mod)"
proof (induction p arbitrary: s1 s2)
  case Nil
  then show ?case by (simp add: adler_s1_def adler_s2_def)
next
  case (Cons x p)
  let ?a = "s1 + of_char x"
  have m: "0 < adler_mod" by (simp add: adler_mod_def)
  have "adler32_update (s1, s2) (x # p) =
        adler32_update (?a mod adler_mod, (s2 + ?a mod adler_mod) mod adler_mod) p"
    by (simp add: Let_def)
  also have "\<dots> = (adler_s1 (?a mod adler_mod) p mod adler_mod,
      ((s2 + ?a mod adler_mod) mod adler_mod + adler_s2 (?a mod adler_mod) p) mod adler_mod)"
    using m by (intro Cons.IH) simp_all
  also have "adler_s1 (?a mod adler_mod) p mod adler_mod = adler_s1 s1 (x # p) mod adler_mod"
    by (simp add: adler_s1_def mod_simps add.assoc)
  also have "((s2 + ?a mod adler_mod) mod adler_mod + adler_s2 (?a mod adler_mod) p) mod adler_mod
      = (s2 + adler_s2 s1 (x # p)) mod adler_mod"
  proof -
    let ?n = "length p" and ?g = "adler_s2 0 p"
    have "((s2 + ?a mod adler_mod) mod adler_mod + adler_s2 (?a mod adler_mod) p) mod adler_mod
        = ((s2 + ?a mod adler_mod) + adler_s2 (?a mod adler_mod) p) mod adler_mod"
      by (rule mod_add_left_eq)
    also have "\<dots> = ((s2 + ?g) + Suc ?n * (?a mod adler_mod)) mod adler_mod"
      by (simp add: adler_s2_shift [of "?a mod adler_mod"] algebra_simps)
    also have "\<dots> = ((s2 + ?g) + Suc ?n * ?a) mod adler_mod"
      by (rule mod_absorb)
    also have "\<dots> = (s2 + adler_s2 s1 (x # p)) mod adler_mod"
      by (simp add: adler_s2_Cons adler_s2_shift [of ?a] algebra_simps)
    finally show ?thesis .
  qed
  finally show ?case .
qed

lemma Sum32_Adler32: "Sum32 p = word_of_nat (Adler32 p)"
proof -
  let ?s1 = "adler_s1 1 p mod 65521" and ?s2 = "adler_s2 1 p mod 65521"
  have u: "adler32_update (1, 0) p = (?s1, ?s2)"
    using adler32_update_sums [of 1 0 p] by (simp add: adler_mod_def)
  have lt: "?s1 < 2 ^ 16" by (rule less_trans [of _ 65521]) simp_all
  have "push_bit 16 (word_of_nat ?s2 :: 32 word) AND word_of_nat ?s1 = 0"
  proof (rule bit_eqI)
    fix n
    show "bit (push_bit 16 (word_of_nat ?s2 :: 32 word) AND word_of_nat ?s1) n = bit (0 :: 32 word) n"
    proof (cases "n < 16")
      case True then show ?thesis by (simp add: bit_simps)
    next
      case False
      then have "?s1 < 2 ^ n" using lt
        by (meson less_le_trans not_less one_le_numeral power_increasing)
      then have "\<not> bit ?s1 n" by (simp add: bit_iff_odd)
      then show ?thesis by (simp add: bit_simps)
    qed
  qed
  then have "push_bit 16 (word_of_nat ?s2 :: 32 word) OR word_of_nat ?s1
      = push_bit 16 (word_of_nat ?s2) + word_of_nat ?s1"
    by (simp add: disjunctive_add_eq_or)
  also have "\<dots> = word_of_nat (?s2 * 65536 + ?s1)"
    by (simp add: push_bit_eq_mult)
  finally show ?thesis unfolding Sum32_def u Adler32_def by simp
qed

lemma Adler32_less: "Adler32 p < 2 ^ 32"
proof -
  have "adler_s2 1 p mod 65521 \<le> 65520" "adler_s1 1 p mod 65521 \<le> 65520"
    by (simp_all add: less_Suc_eq_le [symmetric])
  then have "Adler32 p \<le> 65520 * 65536 + 65520"
    unfolding Adler32_def by (intro add_mono mult_le_mono1)
  then show ?thesis by simp
qed

text \<open>The digest's step without its \<open>let\<close>, for evaluation at a given input.\<close>

lemma adler32_update_step:
  "adler32_update (s1, s2) (x # p) =
     adler32_update ((s1 + of_char x) mod 65521, (s2 + (s1 + of_char x) mod 65521) mod 65521) p"
  by (simp add: Let_def adler_mod_def)

lemmas genHash_eval =
  genHash_def Sum32_def PutUint32_def encode_def encodeURL_def adler32_update_step

lemma PutUint32_rev: "PutUint32 LittleEndian v = rev (PutUint32 BigEndian v)"
  by (simp add: PutUint32_def)

lemma PutUint32_unat:
  "map unat (PutUint32 BigEndian v) =
     [unat v div 2 ^ 24 mod 256, unat v div 2 ^ 16 mod 256, unat v div 2 ^ 8 mod 256, unat v mod 256]"
  by (simp add: PutUint32_def unsigned_ucast_eq unat_drop_bit_eq drop_bit_eq_div take_bit_eq_mod
      unat_div_distrib)

lemma length_encodeURL: "length encodeURL = 64"
  by (simp add: encodeURL_def)

lemma encode_in: "encode i \<in> set encodeURL"
  unfolding encode_def by (rule nth_mem) (simp add: length_encodeURL)

lemma PutUint32_four: "\<exists>a b c d. PutUint32 ne v = [a, b, c, d]"
  by (cases ne) (simp_all add: PutUint32_def)

text \<open>
  C4, as amended. The fingerprint is a function of the input bytes and of the platform's
  byte order: the unpadded URL-safe base64 text of the four bytes of the Adler-32
  checksum in that order. Big-endian, the bytes are the base-256 digits of the checksum
  from the most significant; little-endian, the same bytes reversed. The two orders give
  different fingerprints for some inputs (the byte \<open>a\<close>) and the same for others (the
  bytes FE 03, whose checksum 02 01 01 02 reads the same both ways).
\<close>

theorem genHash_native_order:
  "genHash ne inp = EncodeToString (PutUint32 ne (word_of_nat (Adler32 inp))) \<and>
   map unat (PutUint32 BigEndian (word_of_nat (Adler32 inp) :: 32 word)) =
     [Adler32 inp div 2 ^ 24 mod 256, Adler32 inp div 2 ^ 16 mod 256,
      Adler32 inp div 2 ^ 8 mod 256, Adler32 inp mod 256] \<and>
   PutUint32 LittleEndian (word_of_nat (Adler32 inp)) =
     rev (PutUint32 BigEndian (word_of_nat (Adler32 inp))) \<and>
   genHash LittleEndian ''a'' \<noteq> genHash BigEndian ''a'' \<and>
   genHash LittleEndian [CHR 0xFE, CHR 0x03] = ''AgEBAg'' \<and>
   genHash BigEndian [CHR 0xFE, CHR 0x03] = ''AgEBAg''"
proof -
  have "unat (word_of_nat (Adler32 inp) :: 32 word) = Adler32 inp"
    using Adler32_less [of inp] by (simp add: unat_of_nat)
  then have 1: "genHash ne inp = EncodeToString (PutUint32 ne (word_of_nat (Adler32 inp))) \<and>
   map unat (PutUint32 BigEndian (word_of_nat (Adler32 inp) :: 32 word)) =
     [Adler32 inp div 2 ^ 24 mod 256, Adler32 inp div 2 ^ 16 mod 256,
      Adler32 inp div 2 ^ 8 mod 256, Adler32 inp mod 256] \<and>
   PutUint32 LittleEndian (word_of_nat (Adler32 inp)) =
     rev (PutUint32 BigEndian (word_of_nat (Adler32 inp)))"
    by (simp add: genHash_def Sum32_Adler32 PutUint32_unat PutUint32_rev)
  have 2: "genHash LittleEndian ''a'' \<noteq> genHash BigEndian ''a''"
    by (simp add: genHash_eval del: adler32_update.simps(2))
  have 3: "genHash LittleEndian [CHR 0xFE, CHR 0x03] = ''AgEBAg''"
    by (simp add: genHash_eval del: adler32_update.simps(2))
  have 4: "genHash BigEndian [CHR 0xFE, CHR 0x03] = ''AgEBAg''"
    by (simp add: genHash_eval del: adler32_update.simps(2))
  show ?thesis using 1 2 3 4 by blast
qed

text \<open>
  C4 as stated fails: for the one-byte input \<open>a\<close> the fingerprint on a little-endian
  machine is \<open>YgBiAA\<close>, on a big-endian machine \<open>AGIAYg\<close>.
\<close>

theorem genHash_endianness_counterexample:
  "genHash LittleEndian ''a'' = ''YgBiAA'' \<and> genHash BigEndian ''a'' = ''AGIAYg'' \<and>
   genHash LittleEndian ''a'' \<noteq> genHash BigEndian ''a''"
  by (simp add: genHash_eval del: adler32_update.simps(2))

text \<open>
  C9. Whatever the input bytes and the byte order, the fingerprint has exactly 6
  characters, each of the URL-safe base64 alphabet.
\<close>

theorem genHash_six_url_safe_chars:
  "length (genHash ne inp) = 6 \<and> set (genHash ne inp) \<subseteq> set encodeURL"
proof -
  obtain a b c d where "PutUint32 ne (Sum32 inp) = [a, b, c, d]"
    using PutUint32_four by blast
  then show ?thesis
    by (simp add: genHash_def Let_def encode_in)
qed

section \<open>Scoping completeness\<close>

lemma has_simps [simp]:
  "has h x (out_Write d st) = has h x st"
  "has h x (tmp_Write d st) = has h x st"
  "has h x (tmp_WriteTo_out st) = has h x st"
  "has h x (tmp_Reset st) = has h x st"
  by (simp_all add: has_def out_Write_def tmp_Write_def tmp_WriteTo_out_def tmp_Reset_def)

lemma has_addScopedName: "has h x (addScopedName h y st) = (x = y \<or> has h x st)"
  by (auto simp: has_def addScopedName_def Let_def)

lemma pres:
  "has h x st \<Longrightarrow> recorded h x (mainLoop h EOF ts st)"
  "has h x st' \<Longrightarrow> recorded h x (globalLoop h EOF n ts' st')"
  "has h x st'' \<Longrightarrow> recorded h x (mediaLoop h EOF ts'' st'')"
proof (induction h "EOF" ts st and h "EOF" n ts' st' and h "EOF" ts'' st'' rule: mainLoop_globalLoop_mediaLoop.induct)
  case (1 hash st)
  then show ?case by (simp add: recorded_def has_def)
next
  case (2 hash zt data zz st)
  then show ?case
    by (auto simp: Let_def has_addScopedName split: list.splits)
next
  case (3 hash braceCount st)
  then show ?case by simp
next
  case (4 hash braceCount zt data zz st)
  then show ?case by (auto simp: Let_def)
next
  case (5 hash st)
  then show ?case by simp
next
  case (6 hash zt data zz st)
  then show ?case by (auto simp: Let_def has_addScopedName split: list.splits)
qed

lemma selector_at_iff:
  "x \<in> set (selector_at b t ts) \<longleftrightarrow>
     \<not> b \<and> t = (DelimToken, ''.'') \<and> (\<exists>us. ts = (IdentToken, x) # us)"
proof (cases ts)
  case Nil
  then show ?thesis by (simp add: selector_at_def)
next
  case (Cons u us)
  obtain k d where u: "u = (k, d)" by (cases u)
  show ?thesis unfolding Cons u selector_at_def by auto
qed

lemma cs_Inside_simps:
  "fst t = LeftBraceToken \<Longrightarrow> cs (Inside n) b (t # ts) = cs (Inside (Suc n)) (takes_lookahead t) ts"
  "fst t = RightBraceToken \<Longrightarrow> n \<le> 1 \<Longrightarrow> cs (Inside n) b (t # ts) = cs Outside (takes_lookahead t) ts"
  "fst t = RightBraceToken \<Longrightarrow> \<not> n \<le> 1 \<Longrightarrow> cs (Inside n) b (t # ts) = cs (Inside (n - 1)) (takes_lookahead t) ts"
  "fst t \<noteq> LeftBraceToken \<Longrightarrow> fst t \<noteq> RightBraceToken \<Longrightarrow> cs (Inside n) b (t # ts) = cs (Inside n) (takes_lookahead t) ts"
  by simp_all

lemma cs_Outside_marker:
  "opens_global t ts \<Longrightarrow> cs Outside b (t # ts) = cs (Inside 0) (takes_lookahead t) ts"
  by simp

lemma cs_Outside_other:
  "\<not> opens_global t ts \<Longrightarrow>
     set (cs Outside b (t # ts)) = set (selector_at b t ts) \<union> set (cs Outside (takes_lookahead t) ts)"
  by simp

lemma cs_Outside_rest:
  "\<not> opens_global t ts \<Longrightarrow> x \<in> set (cs Outside (takes_lookahead t) ts) \<Longrightarrow> x \<in> set (cs Outside b (t # ts))"
  by (simp add: cs_Outside_other)

lemma selector_at_True [simp]: "selector_at True t ts = []"
  by (cases ts) (simp_all add: selector_at_def)

lemma selector_at_flag: "x \<in> set (selector_at b t ts) \<Longrightarrow> x \<in> set (selector_at False t ts)"
  by (cases b) simp_all

lemma cs_flagD:
  assumes x: "x \<in> set (cs Outside b ts)"
  shows "x \<in> set (cs Outside False ts)"
proof (cases ts)
  case Nil
  then show ?thesis using x by simp
next
  case (Cons t us)
  show ?thesis
  proof (cases "opens_global t us")
    case True
    then show ?thesis using x unfolding Cons by (simp only: cs_Outside_marker)
  next
    case False
    have "x \<in> set (selector_at b t us) \<union> set (cs Outside (takes_lookahead t) us)"
      using x cs_Outside_other [OF False] unfolding Cons by blast
    then have "x \<in> set (selector_at False t us) \<union> set (cs Outside (takes_lookahead t) us)"
      using selector_at_flag by blast
    then show ?thesis using cs_Outside_other [OF False] unfolding Cons by blast
  qed
qed

lemma cs_region:
  "(\<forall>n b b' x. x \<in> set (cs (Inside n) b ts) \<longrightarrow> x \<in> set (cs Outside b' ts)) \<and>
   (\<forall>n m b b' x. m \<le> n \<longrightarrow> x \<in> set (cs (Inside n) b ts) \<longrightarrow> x \<in> set (cs (Inside m) b' ts))"
proof (induction ts)
  case Nil
  then show ?case by simp
next
  case (Cons t ts)
  have 1: "x \<in> set (cs (Inside n) b ts) \<Longrightarrow> x \<in> set (cs Outside b' ts)" for n b b' x
    using Cons.IH by blast
  have 2: "m \<le> n \<Longrightarrow> x \<in> set (cs (Inside n) b ts) \<Longrightarrow> x \<in> set (cs (Inside m) b' ts)" for n m b b' x
    using Cons.IH by blast
  have a: "x \<in> set (cs Outside b' (t # ts))" if x: "x \<in> set (cs (Inside n) b (t # ts))" for n b b' x
  proof (cases "opens_global t ts")
    case True
    then have "fst t = ColonToken" by (simp add: opens_global_def)
    then have "x \<in> set (cs (Inside n) (takes_lookahead t) ts)"
      using x by (simp add: cs_Inside_simps)
    then have "x \<in> set (cs (Inside 0) (takes_lookahead t) ts)"
      by (rule 2 [rotated]) simp
    then show ?thesis using True by (simp only: cs_Outside_marker)
  next
    case False
    have "x \<in> set (cs Outside (takes_lookahead t) ts)"
    proof (cases "fst t = LeftBraceToken")
      case True
      then show ?thesis using x 1 by (simp add: cs_Inside_simps)
    next
      case nl: False
      show ?thesis
      proof (cases "fst t = RightBraceToken")
        case True
        then show ?thesis using x 1 by (cases "n \<le> 1") (simp_all add: cs_Inside_simps)
      next
        case False
        then show ?thesis using x nl 1 by (simp add: cs_Inside_simps)
      qed
    qed
    then show ?thesis using False by (rule cs_Outside_rest [rotated])
  qed
  have b: "x \<in> set (cs (Inside m) b' (t # ts))"
    if mn: "m \<le> n" and x: "x \<in> set (cs (Inside n) b (t # ts))" for n m b b' x
  proof (cases "fst t = LeftBraceToken")
    case True
    then show ?thesis using x mn 2 [of "Suc m" "Suc n"] by (simp add: cs_Inside_simps)
  next
    case nl: False
    show ?thesis
    proof (cases "fst t = RightBraceToken")
      case True
      show ?thesis
      proof (cases "n \<le> 1")
        case n1: True
        then have "m \<le> 1" using mn by simp
        then show ?thesis using x True n1 by (simp add: cs_Inside_simps)
      next
        case n1: False
        show ?thesis
        proof (cases "m \<le> 1")
          case True
          then show ?thesis using x \<open>fst t = RightBraceToken\<close> n1 1 by (simp add: cs_Inside_simps)
        next
          case False
          have "m - 1 \<le> n - 1" using mn by simp
          then show ?thesis using x \<open>fst t = RightBraceToken\<close> n1 False 2 [of "m - 1" "n - 1"]
            by (simp add: cs_Inside_simps)
        qed
      qed
    next
      case False
      then show ?thesis using x nl mn 2 [of m n] by (simp add: cs_Inside_simps)
    qed
  qed
  show ?case using a b by blast
qed

lemma cs_Inside_Outside: "x \<in> set (cs (Inside n) b ts) \<Longrightarrow> x \<in> set (cs Outside False ts)"
  using cs_region by blast

lemma cs_lookahead:
  assumes "x \<in> set (cs Outside True (u # us))"
  shows "x \<in> set (cs Outside False us)"
proof (cases "opens_global u us")
  case True
  then show ?thesis using assms cs_Inside_Outside by (simp only: cs_Outside_marker)
next
  case False
  have "x \<in> set (selector_at True u us) \<union> set (cs Outside (takes_lookahead u) us)"
    using assms cs_Outside_other [OF False] by blast
  then have "x \<in> set (cs Outside (takes_lookahead u) us)" by simp
  then show ?thesis by (rule cs_flagD)
qed

lemma tl_simps [simp]:
  "takes_lookahead (ColonToken, d)" "takes_lookahead (AtKeywordToken, d)"
  "takes_lookahead (DelimToken, ''.'')"
  by (simp_all add: takes_lookahead_def)

lemma tl_other:
  "zt \<noteq> ColonToken \<Longrightarrow> zt \<noteq> AtKeywordToken \<Longrightarrow> \<not> (zt = DelimToken \<and> d = ''.'') \<Longrightarrow>
   \<not> takes_lookahead (zt, d)"
  by (auto simp: takes_lookahead_def)

lemma sim:
  "x \<in> set (cs Outside False ts) \<Longrightarrow> recorded h x (mainLoop h EOF ts st)"
  "0 \<le> n \<Longrightarrow> x \<in> set (cs (Inside (nat n)) b ts') \<Longrightarrow> recorded h x (globalLoop h EOF n ts' st')"
  "x \<in> set (cs Outside False ts'') \<Longrightarrow> recorded h x (mediaLoop h EOF ts'' st'')"
proof (induction h "EOF" ts st and h "EOF" n ts' st' and h "EOF" ts'' st'' arbitrary: and b and
    rule: mainLoop_globalLoop_mediaLoop.induct)
  case (1 hash st)
  then show ?case by simp
next
  case (2 hash zt data zz st)
  let ?t = "(zt, data)"
  note x = \<open>x \<in> set (cs Outside False (?t # zz))\<close>
  show ?case
  proof (cases "opens_global ?t zz")
    case True
    then obtain us where zt: "zt = ColonToken" and zz: "zz = (IdentToken, ''global'') # us"
      by (auto simp: opens_global_def split: list.splits)
    have "x \<in> set (cs (Inside 0) True zz)"
      using x True by (simp only: cs_Outside_marker zt tl_simps)
    then have "x \<in> set (cs (Inside (nat 0)) (takes_lookahead (IdentToken, ''global'')) us)"
      by (simp add: zz)
    then have "recorded hash x (globalLoop hash EOF 0 us (tmp_Write data st))"
      using "2.hyps"(4) [OF refl zt zz refl] by simp
    then show ?thesis by (simp add: zt zz)
  next
    case False
    have "x \<in> set (selector_at False ?t zz) \<union> set (cs Outside (takes_lookahead ?t) zz)"
      using x cs_Outside_other [OF False] by blast
    then consider (sel) "x \<in> set (selector_at False ?t zz)"
      | (rest) "x \<in> set (cs Outside (takes_lookahead ?t) zz)" by blast
    then show ?thesis
    proof cases
      case sel
      then obtain us where t: "zt = DelimToken" "data = ''.''" and zz: "zz = (IdentToken, x) # us"
        by (auto simp: selector_at_iff)
      have "has hash x (tmp_Reset (addScopedName hash x (tmp_WriteTo_out (tmp_Write data st))))"
        by (simp add: has_addScopedName)
      then show ?thesis by (simp add: t zz pres)
    next
      case rest
      show ?thesis
      proof (cases zz)
        case Nil
        then show ?thesis using rest by simp
      next
        case (Cons u us)
        obtain k d where u: "u = (k, d)" by (cases u)
        have la: "x \<in> set (cs Outside False us)" if "takes_lookahead ?t"
          using rest that cs_lookahead unfolding Cons by simp
        consider (colon) "zt = ColonToken"
          | (at) "zt \<noteq> ColonToken" "zt = AtKeywordToken"
          | (dot) "zt \<noteq> ColonToken" "zt \<noteq> AtKeywordToken" "zt = DelimToken \<and> data = ''.''"
          | (other) "zt \<noteq> ColonToken" "zt \<noteq> AtKeywordToken" "\<not> (zt = DelimToken \<and> data = ''.'')"
          by blast
        then show ?thesis
        proof cases
          case colon
          have ng: "\<not> (k = IdentToken \<and> d = ''global'')"
            using False by (simp add: opens_global_def colon Cons u)
          have xs: "x \<in> set (cs Outside False us)" using la colon by simp
          show ?thesis
          proof (cases "k \<noteq> IdentToken")
            case True
            from "2.hyps"(2) [OF refl colon Cons u [symmetric] True xs]
            show ?thesis using True by (simp add: colon Cons u)
          next
            case k: False
            then have d: "d \<noteq> ''global''" using ng by simp
            from "2.hyps"(3) [OF refl colon Cons u [symmetric] k d xs]
            show ?thesis using k d by (simp add: colon Cons u)
          qed
        next
          case at
          have xs: "x \<in> set (cs Outside False us)" using la at by simp
          show ?thesis
          proof (cases "k \<noteq> IdentToken")
            case True
            from "2.hyps"(6) [OF refl at refl Cons u [symmetric] refl True xs]
            show ?thesis using True by (simp add: at Cons u)
          next
            case k: False
            show ?thesis
            proof (cases "d \<noteq> ''media''")
              case True
              from "2.hyps"(7) [OF refl at refl Cons u [symmetric] refl k True xs]
              show ?thesis using k True by (simp add: at Cons u)
            next
              case d: False
              from "2.hyps"(8) [OF refl at refl Cons u [symmetric] refl k d xs]
              show ?thesis using k d by (simp add: at Cons u)
            qed
          qed
        next
          case dot
          have xs: "x \<in> set (cs Outside False us)" using la dot by simp
          show ?thesis
          proof (cases "k \<noteq> IdentToken")
            case True
            from "2.hyps"(10) [OF refl dot refl Cons u [symmetric] True xs]
            show ?thesis using True dot by (simp add: Cons u)
          next
            case k: False
            from "2.hyps"(11) [OF refl dot refl Cons u [symmetric] k xs]
            show ?thesis using k dot by (simp add: Cons u)
          qed
        next
          case other
          have "\<not> takes_lookahead ?t" using other by (rule tl_other)
          then have "x \<in> set (cs Outside False zz)" using rest by simp
          from "2.hyps"(12) [OF refl other this]
          show ?thesis using other by (auto simp: Let_def)
        qed
      qed
    qed
  qed
next
  case (3 hash braceCount st)
  then show ?case by simp
next
  case (4 hash braceCount zt data zz st)
  let ?t = "(zt, data)"
  note n = \<open>0 \<le> braceCount\<close>
  note x = \<open>x \<in> set (cs (Inside (nat braceCount)) b (?t # zz))\<close>
  show ?case
  proof (cases "zt = LeftBraceToken")
    case True
    have "x \<in> set (cs (Inside (nat (braceCount + 1))) (takes_lookahead ?t) zz)"
      using x n True by (simp add: nat_add_distrib)
    from "4.hyps"(1) [OF True refl refl _ this]
    show ?thesis using n True by (simp add: Let_def)
  next
    case nl: False
    show ?thesis
    proof (cases "zt = RightBraceToken")
      case True
      show ?thesis
      proof (cases "braceCount - 1 \<le> 0")
        case le: True
        then have "nat braceCount \<le> 1" by simp
        then have "x \<in> set (cs Outside (takes_lookahead ?t) zz)"
          using x True by (simp add: cs_Inside_simps)
        then have "x \<in> set (cs Outside False zz)" by (rule cs_flagD)
        from "4.hyps"(2) [OF nl True refl refl le this]
        show ?thesis using True le by (simp add: Let_def)
      next
        case le: False
        then have "\<not> nat braceCount \<le> 1" by simp
        then have "x \<in> set (cs (Inside (nat braceCount - 1)) (takes_lookahead ?t) zz)"
          using x True by (simp add: cs_Inside_simps)
        then have "x \<in> set (cs (Inside (nat (braceCount - 1))) (takes_lookahead ?t) zz)"
          using le by (simp add: nat_diff_distrib)
        from "4.hyps"(3) [OF nl True refl refl le _ this]
        show ?thesis using True le by (simp add: Let_def)
      qed
    next
      case False
      have "x \<in> set (cs (Inside (nat braceCount)) (takes_lookahead ?t) zz)"
        using x nl False by (simp add: cs_Inside_simps)
      from "4.hyps"(4) [OF nl False n this]
      show ?thesis using nl False by simp
    qed
  qed
next
  case (5 hash st)
  then show ?case by simp
next
  case (6 hash zt data zz st)
  let ?t = "(zt, data)"
  note x = \<open>x \<in> set (cs Outside False (?t # zz))\<close>
  have dispatch: ?case if F: "x \<in> set (cs Outside False zz)"
    and nd: "\<not> (zt = DelimToken \<and> data = ''.'')"
  proof (cases "zt = LeftBraceToken")
    case True
    from "6.hyps"(4) [OF refl refl nd True refl F]
    show ?thesis using nd True by (simp add: Let_def)
  next
    case nl: False
    show ?thesis
    proof (cases "zt = RightBraceToken")
      case True
      have le: "(0::int) - 1 \<le> 0" by simp
      from "6.hyps"(5) [OF refl refl nd nl True refl le F]
      show ?thesis using nd nl True by (auto simp: Let_def)
    next
      case False
      from "6.hyps"(7) [OF refl refl nd nl False F]
      show ?thesis using nd nl False by (auto simp: Let_def)
    qed
  qed
  show ?case
  proof (cases "opens_global ?t zz")
    case True
    then have zt: "zt = ColonToken" by (simp add: opens_global_def)
    have "x \<in> set (cs (Inside 0) True zz)"
      using x True by (simp only: cs_Outside_marker zt tl_simps)
    then have "x \<in> set (cs Outside False zz)" by (rule cs_Inside_Outside)
    then show ?thesis using zt by (intro dispatch) simp_all
  next
    case False
    have "x \<in> set (selector_at False ?t zz) \<union> set (cs Outside (takes_lookahead ?t) zz)"
      using x cs_Outside_other [OF False] by blast
    then consider (sel) "x \<in> set (selector_at False ?t zz)"
      | (rest) "x \<in> set (cs Outside (takes_lookahead ?t) zz)" by blast
    then show ?thesis
    proof cases
      case sel
      then obtain us where t: "zt = DelimToken" "data = ''.''" and zz: "zz = (IdentToken, x) # us"
        by (auto simp: selector_at_iff)
      have "has hash x (addScopedName hash x (out_Write data st))"
        by (simp add: has_addScopedName)
      then show ?thesis by (simp add: t zz pres Let_def)
    next
      case rest
      show ?thesis
      proof (cases "zt = DelimToken \<and> data = ''.''")
        case dot: True
        show ?thesis
        proof (cases zz)
          case Nil
          then show ?thesis using rest by simp
        next
          case (Cons u us)
          obtain k d where u: "u = (k, d)" by (cases u)
          have xs: "x \<in> set (cs Outside False us)"
            using rest dot cs_lookahead unfolding Cons by simp
          show ?thesis
          proof (cases "k \<noteq> IdentToken")
            case True
            from "6.hyps"(2) [OF refl refl dot Cons u [symmetric] True xs]
            show ?thesis using True dot by (simp add: Cons u Let_def)
          next
            case k: False
            from "6.hyps"(3) [OF refl refl dot Cons u [symmetric] k xs]
            show ?thesis using k dot by (simp add: Cons u Let_def)
          qed
        qed
      next
        case False
        have "x \<in> set (cs Outside False zz)" using rest by (rule cs_flagD)
        then show ?thesis using False by (rule dispatch)
      qed
    qed
  qed
qed

lemmas buf_defs = out_Write_def tmp_Write_def tmp_WriteTo_out_def tmp_Reset_def addScopedName_def

text \<open>
  C1, as amended. When the lexer ends with \<open>io.EOF\<close>, every bare class selector outside
  a \<open>:global\<close> block whose \<open>.\<close> does not come right after a colon, an at-keyword or
  another \<open>.\<close> delimiter is a key of the mapping \<open>Process\<close> returns, and its value is
  the name, an underscore and the fingerprint of the stylesheet.
\<close>

theorem scoping_completeness:
  assumes "Err (NewLexer src) = EOF"
    and "x \<in> set (cs Outside False (tokens (NewLexer src)))"
  shows "\<exists>ou m. Process ne NewLexer src = Inr (ou, m) \<and> m x = Some (x @ ''_'' @ genHash ne src)"
proof -
  have "recorded (genHash ne src) x
      (mainLoop (genHash ne src) EOF (tokens (NewLexer src)) \<lparr>out = [], tmp = [], scopedClasses = Map.empty\<rparr>)"
    using assms(2) by (rule sim(1))
  then show ?thesis
    by (auto simp: recorded_def Process_def Let_def assms(1) split: sum.splits)
qed

text \<open>The rule \<open>.test-class { color: red; font-size: large; }\<close>: \<open>test-class\<close> is
  recorded under the fingerprint \<open>2A9LcA\<close> of the text.\<close>

theorem scoping_completeness_witness:
  "Err (lexer_of class_rule_tokens ''.test-class { color: red; font-size: large; }'') = EOF \<and>
   ''test-class'' \<in> set (cs Outside False
      (tokens (lexer_of class_rule_tokens ''.test-class { color: red; font-size: large; }''))) \<and>
   (\<exists>ou m. Process LittleEndian (lexer_of class_rule_tokens)
        ''.test-class { color: red; font-size: large; }'' = Inr (ou, m) \<and>
      m ''test-class'' = Some ''test-class_2A9LcA'')"
proof -
  let ?src = "''.test-class { color: red; font-size: large; }''"
  have 1: "Err (lexer_of class_rule_tokens ?src) = EOF"
    by (simp add: lexer_of_def)
  have 2: "''test-class'' \<in> set (cs Outside False (tokens (lexer_of class_rule_tokens ?src)))"
    by (simp add: lexer_of_def class_rule_tokens_def ws_def opens_global_def selector_at_def
        takes_lookahead_def)
  have 3: "genHash LittleEndian ?src = ''2A9LcA''"
    by (simp add: genHash_eval del: adler32_update.simps(2))
  from scoping_completeness [where NewLexer = "lexer_of class_rule_tokens" and src = ?src
      and x = "''test-class''" and ne = LittleEndian, OF 1 2]
  show ?thesis unfolding 3 using 1 2 by simp
qed

text \<open>
  C1 as stated fails. In \<open>..a\<close> the second \<open>.\<close> is followed by the identifier \<open>a\<close>
  and no \<open>:global\<close> block is near, but \<open>Process\<close> has read that \<open>.\<close> as the token
  after the first one and copied it: the text comes back unchanged, the mapping empty.
\<close>

theorem every_dot_ident_counterexample:
  "''a'' \<in> set (class_selectors never Outside False
       [(DelimToken, ''.''), (DelimToken, ''.''), (IdentToken, ''a'')]) \<and>
   Process LittleEndian (lexer_of [(DelimToken, ''.''), (DelimToken, ''.''), (IdentToken, ''a'')]) ''..a''
     = Inr (''..a'', Map.empty)"
  by (simp add: never_def opens_global_def selector_at_def Process_def lexer_of_def buf_defs)

section \<open>The \<open>:global\<close> block and the loop after \<open>media\<close>\<close>

lemma out_Write_out_Write [simp]: "out_Write b (out_Write a st) = out_Write (a @ b) st"
  by (simp add: out_Write_def)

lemma out_Write_Nil [simp]: "out_Write [] st = st"
  by (simp add: out_Write_def)

lemma globalLoop_pre:
  "no_braces pre \<Longrightarrow>
   globalLoop h e n (pre @ rest) st = globalLoop h e n rest (out_Write (concat (map snd pre)) st)"
proof (induction pre arbitrary: st)
  case Nil
  then show ?case by simp
next
  case (Cons t pre)
  obtain zt d where t: "t = (zt, d)" by (cases t)
  from Cons.prems have "zt \<noteq> LeftBraceToken" "zt \<noteq> RightBraceToken" "no_braces pre"
    by (simp_all add: no_braces_def t)
  then show ?case using Cons.IH [of "out_Write d st"] by (simp add: t)
qed

lemma globalLoop_body:
  "brace_depth n body = Some d \<Longrightarrow>
   globalLoop h e (1 + int n) (body @ rest) st =
     globalLoop h e (1 + int d) rest (out_Write (concat (map snd body)) st)"
proof (induction body arbitrary: n st)
  case Nil
  then show ?case by simp
next
  case (Cons t body)
  obtain zt dt where t: "t = (zt, dt)" by (cases t)
  show ?case
  proof (cases "zt = LeftBraceToken")
    case True
    then have "brace_depth (Suc n) body = Some d" using Cons.prems by (simp add: t)
    from Cons.IH [OF this, of "out_Write dt st"]
    show ?thesis using True by (simp add: t Let_def add.commute)
  next
    case nl: False
    show ?thesis
    proof (cases "zt = RightBraceToken")
      case True
      then have n: "n \<noteq> 0" and "brace_depth (n - 1) body = Some d"
        using Cons.prems nl by (auto simp: t split: if_splits)
      from Cons.IH [OF this(2), of "out_Write dt st"] n
      show ?thesis using True nl by (simp add: t Let_def of_nat_diff)
    next
      case False
      then have "brace_depth n body = Some d" using Cons.prems nl by (simp add: t)
      from Cons.IH [OF this, of "out_Write dt st"]
      show ?thesis using False nl by (simp add: t)
    qed
  qed
qed

text \<open>
  C2. The tokens are \<open>:\<close>, \<open>global\<close>, tokens without braces, the wrapper's left brace,
  a body whose own braces match, and the wrapper's right brace. \<open>Process\<close> returns the
  bytes between \<open>global\<close> and the wrapper's left brace followed by the bytes of the body,
  as they are in the source, and an empty mapping: the marker and the two wrapping braces
  are gone and no class inside is scoped.
\<close>

theorem global_block_verbatim:
  assumes toks: "tokens (NewLexer src) =
      (ColonToken, c) # (IdentToken, ''global'') # pre @
      (LeftBraceToken, l) # body @ [(RightBraceToken, r)]"
    and eof: "Err (NewLexer src) = EOF"
    and pre: "no_braces pre"
    and body: "brace_depth 0 body = Some 0"
  shows "Process ne NewLexer src = Inr (concat (map snd pre) @ concat (map snd body), Map.empty)"
proof -
  let ?h = "genHash ne src"
  let ?st = "tmp_Write c \<lparr>out = [], tmp = [], scopedClasses = Map.empty\<rparr>"
  have "Process ne NewLexer src =
      globalLoop ?h EOF 0 (pre @ (LeftBraceToken, l) # body @ [(RightBraceToken, r)]) ?st"
    by (simp add: Process_def Let_def toks eof)
  also have "\<dots> = globalLoop ?h EOF 0 ((LeftBraceToken, l) # body @ [(RightBraceToken, r)])
      (out_Write (concat (map snd pre)) ?st)"
    using pre by (rule globalLoop_pre)
  also have "\<dots> = globalLoop ?h EOF (1 + int 0) (body @ [(RightBraceToken, r)])
      (out_Write (concat (map snd pre)) ?st)"
    by (simp add: Let_def)
  also have "\<dots> = globalLoop ?h EOF (1 + int 0) [(RightBraceToken, r)]
      (out_Write (concat (map snd body)) (out_Write (concat (map snd pre)) ?st))"
    using body by (rule globalLoop_body)
  also have "\<dots> = Inr (concat (map snd pre) @ concat (map snd body), Map.empty)"
    by (simp add: Let_def buf_defs)
  finally show ?thesis .
qed

text \<open>The input \<open>:global {.test-class { color: red; font-size: large; }}\<close> gives
  exactly \<open> .test-class { color: red; font-size: large; }\<close> and no mapping entry.\<close>

theorem global_block_verbatim_witness:
  "Process LittleEndian (lexer_of global_block_tokens)
     '':global {.test-class { color: red; font-size: large; }}''
   = Inr ('' .test-class { color: red; font-size: large; }'', Map.empty)"
  using global_block_verbatim [where NewLexer = "lexer_of global_block_tokens"
      and src = "'':global {.test-class { color: red; font-size: large; }}''"
      and ne = LittleEndian and c = "'':''" and pre = "[ws]" and l = "''{''" and r = "''}''"
      and body = "[(DelimToken, ''.''), (IdentToken, ''test-class''), ws, (LeftBraceToken, ''{''), ws,
      (IdentToken, ''color''), (ColonToken, '':''), ws, (IdentToken, ''red''),
      (SemicolonToken, '';''), ws,
      (IdentToken, ''font-size''), (ColonToken, '':''), ws, (IdentToken, ''large''),
      (SemicolonToken, '';''), ws, (RightBraceToken, ''}'')]"]
  by (simp add: lexer_of_def global_block_tokens_def ws_def no_braces_def)

lemma global_block_tokens_spell:
  "concat (map snd global_block_tokens) = '':global {.test-class { color: red; font-size: large; }}''"
  by (simp add: global_block_tokens_def ws_def)

text \<open>
  C8. The same without the wrapper's right brace: whatever braces the body leaves open,
  as long as none of its right braces closes the wrapper, \<open>Process\<close> reaches the end of
  the input inside the block and returns without error the bytes after \<open>global\<close>, the
  wrapper's left brace left out, with an empty mapping.
\<close>

theorem open_global_block:
  assumes toks: "tokens (NewLexer src) =
      (ColonToken, c) # (IdentToken, ''global'') # pre @ (LeftBraceToken, l) # body"
    and eof: "Err (NewLexer src) = EOF"
    and pre: "no_braces pre"
    and body: "brace_depth 0 body = Some d"
  shows "Process ne NewLexer src = Inr (concat (map snd pre) @ concat (map snd body), Map.empty)"
proof -
  let ?h = "genHash ne src"
  let ?st = "tmp_Write c \<lparr>out = [], tmp = [], scopedClasses = Map.empty\<rparr>"
  have "Process ne NewLexer src = globalLoop ?h EOF 0 (pre @ (LeftBraceToken, l) # body) ?st"
    by (simp add: Process_def Let_def toks eof)
  also have "\<dots> = globalLoop ?h EOF 0 ((LeftBraceToken, l) # body)
      (out_Write (concat (map snd pre)) ?st)"
    using pre by (rule globalLoop_pre)
  also have "\<dots> = globalLoop ?h EOF (1 + int 0) (body @ [])
      (out_Write (concat (map snd pre)) ?st)"
    by (simp add: Let_def)
  also have "\<dots> = globalLoop ?h EOF (1 + int d) []
      (out_Write (concat (map snd body)) (out_Write (concat (map snd pre)) ?st))"
    using body by (rule globalLoop_body)
  also have "\<dots> = Inr (concat (map snd pre) @ concat (map snd body), Map.empty)"
    by (simp add: buf_defs)
  finally show ?thesis .
qed

text \<open>The input \<open>:global {.test-class { color: red; }\<close> gives
  \<open> .test-class { color: red; }\<close>, no mapping entry and no error.\<close>

theorem open_global_block_witness:
  "Process LittleEndian (lexer_of open_global_tokens) '':global {.test-class { color: red; }''
   = Inr ('' .test-class { color: red; }'', Map.empty)"
  using open_global_block [where NewLexer = "lexer_of open_global_tokens"
      and src = "'':global {.test-class { color: red; }''"
      and ne = LittleEndian and c = "'':''" and pre = "[ws]" and l = "''{''" and d = 0
      and body = "[(DelimToken, ''.''), (IdentToken, ''test-class''), ws, (LeftBraceToken, ''{''), ws,
      (IdentToken, ''color''), (ColonToken, '':''), ws, (IdentToken, ''red''),
      (SemicolonToken, '';''), ws, (RightBraceToken, ''}'')]"]
  by (simp add: lexer_of_def open_global_tokens_def ws_def no_braces_def)

lemma open_global_tokens_spell:
  "concat (map snd open_global_tokens) = '':global {.test-class { color: red; }''"
  by (simp add: open_global_tokens_def ws_def)

text \<open>
  The body of the loop after \<open>media\<close> declares its counter, so every iteration starts
  from 0: a left brace leaves nothing behind, and any right brace ends the loop.
\<close>

lemma mediaLoop_braces:
  "mediaLoop h e ((LeftBraceToken, l) # zz) st = mediaLoop h e zz (out_Write l st)"
  "mediaLoop h e ((RightBraceToken, r) # zz) st = mainLoop h e zz (tmp_Reset (out_Write r st))"
  by (simp_all add: Let_def)

text \<open>
  After an at-keyword token the main loop goes on in Normal mode unless the next token is
  the identifier \<open>media\<close>.
\<close>

lemma mainLoop_at_keyword_other:
  "u \<noteq> (IdentToken, ''media'') \<Longrightarrow>
   mainLoop h e ((AtKeywordToken, d) # u # zz) st =
     mainLoop h e zz (out_Write (snd u) (tmp_WriteTo_out (tmp_Write d st)))"
  by (cases u) (auto simp: Let_def)

text \<open>
  C3. \<open>Process\<close> enters the loop after \<open>media\<close> only when the token after the
  at-keyword token is the identifier \<open>media\<close>. In the tokens of an \<open>@media\<close> block the
  at-keyword token is \<open>@media\<close> itself and the next token is something else (here the
  left brace), so the main loop goes on: no counter runs, and the tokens of the block are
  read in Normal mode. On \<open>@media{a{}:global{.b{}}}\<close> the main loop takes
  \<open>:global{.b{}}\<close> inside the block for a global block, strips the marker and its braces
  and leaves \<open>.b\<close> unscoped, where a loop that copies through up to the right brace
  matching the block's left brace would have copied the marker and scoped \<open>.b\<close>.
\<close>

theorem media_block_in_main_loop:
  "mainLoop h e ((AtKeywordToken, d) # (LeftBraceToken, l) # zz) st =
     mainLoop h e zz (out_Write l (tmp_WriteTo_out (tmp_Write d st))) \<and>
   concat (map snd media_nested_tokens) = ''@media{a{}:global{.b{}}}'' \<and>
   Process LittleEndian (lexer_of media_nested_tokens) ''@media{a{}:global{.b{}}}''
     = Inr (''@media{a{}.b{}}'', Map.empty)"
  by (simp add: Let_def Process_def lexer_of_def media_nested_tokens_def buf_defs)

section \<open>A colon at the end of the input\<close>

lemma no_marker_tl: "no_marker (u # ts) \<Longrightarrow> no_marker ts"
  by (cases ts) simp_all

lemma mainLoop_Nil_EOF: "mainLoop h EOF [] st = Inr (out st, scopedClasses st)"
  by simp

lemma trailing_colon:
  "no_marker pre \<Longrightarrow> pre = [] \<or> \<not> takes_lookahead (last pre) \<Longrightarrow>
   mainLoop h EOF (pre @ [(ColonToken, c)]) st = mainLoop h EOF pre st"
proof (induction pre arbitrary: st rule: length_induct)
  case (1 pre)
  note IH = "1.IH" [rule_format]
  show ?case
  proof (cases pre)
    case Nil
    then show ?thesis by (simp add: buf_defs)
  next
    case (Cons t zz)
    obtain zt d where t: "t = (zt, d)" by (cases t)
    show ?thesis
    proof (cases zz)
      case Nil
      have "\<not> takes_lookahead (zt, d)" using "1.prems"(2) by (simp add: Cons Nil t)
      then have "zt \<noteq> ColonToken" "zt \<noteq> AtKeywordToken" "\<not> (zt = DelimToken \<and> d = ''.'')"
        by (auto simp: takes_lookahead_def)
      then show ?thesis by (auto simp: Cons Nil t buf_defs)
    next
      case zz: (Cons u us)
      obtain k du where u: "u = (k, du)" by (cases u)
      have "no_marker (t # u # us)"
        using "1.prems"(1) by (simp only: Cons zz)
      then have nm1: "no_marker (u # us)"
        by (rule no_marker_tl)
      have nm2: "no_marker us"
        using nm1 by (rule no_marker_tl)
      have lst: "us = [] \<or> \<not> takes_lookahead (last us)"
        using "1.prems"(2) by (auto simp: Cons zz)
      have lst1: "\<not> takes_lookahead (last (u # us))"
        using "1.prems"(2) by (auto simp: Cons zz)
      have two: "mainLoop h EOF (us @ [(ColonToken, c)]) s = mainLoop h EOF us s" for s
        using nm2 lst by (intro IH) (simp_all add: Cons zz)
      have one: "mainLoop h EOF ((u # us) @ [(ColonToken, c)]) s = mainLoop h EOF (u # us) s" for s
        using nm1 lst1 by (intro IH) (simp_all add: Cons zz)
      consider (colon) "zt = ColonToken"
        | (at) "zt \<noteq> ColonToken" "zt = AtKeywordToken"
        | (dot) "zt \<noteq> ColonToken" "zt \<noteq> AtKeywordToken" "zt = DelimToken \<and> d = ''.''"
        | (other) "zt \<noteq> ColonToken" "zt \<noteq> AtKeywordToken" "\<not> (zt = DelimToken \<and> d = ''.'')"
        by blast
      then show ?thesis
      proof cases
        case colon
        have "\<not> (k = IdentToken \<and> du = ''global'')"
          using "1.prems"(1) by (simp add: Cons zz t u colon)
        then show ?thesis using two by (auto simp: Cons zz t u colon Let_def)
      next
        case at
        have "\<not> (k = IdentToken \<and> du = ''media'')"
          using "1.prems"(1) by (simp add: Cons zz t u at)
        then show ?thesis using two at by (auto simp: Cons zz t u Let_def)
      next
        case dot
        then show ?thesis using two by (auto simp: Cons zz t u Let_def)
      next
        case other
        then show ?thesis using one by (auto simp: Cons zz t Let_def)
      qed
    qed
  qed
qed

text \<open>A lexer that ends with \<open>io.EOF\<close> makes every loop return a result.\<close>

lemma mainLoop_EOF_returns: "\<exists>ou m. mainLoop h EOF ts st = Inr (ou, m)"
  "\<exists>ou m. globalLoop h EOF n ts' st' = Inr (ou, m)"
  "\<exists>ou m. mediaLoop h EOF ts'' st'' = Inr (ou, m)"
proof (induction h "EOF" ts st and h "EOF" n ts' st' and h "EOF" ts'' st''
    rule: mainLoop_globalLoop_mediaLoop.induct)
  case (1 hash st)
  then show ?case by simp
next
  case (2 hash zt data zz st)
  then show ?case by (auto simp: Let_def split: list.splits)
next
  case (3 hash braceCount st)
  then show ?case by simp
next
  case (4 hash braceCount zt data zz st)
  then show ?case by (auto simp: Let_def)
next
  case (5 hash st)
  then show ?case by simp
next
  case (6 hash zt data zz st)
  then show ?case by (auto simp: Let_def split: list.splits)
qed

text \<open>
  C10, as amended. The stream ends with a colon that the main loop itself reads: no
  \<open>:global\<close> or \<open>media\<close> marker comes before it, and the token before it is not a
  colon, an at-keyword or a \<open>.\<close> delimiter. Then \<open>Process\<close> returns successfully, and
  returns what it returns for the stream without that colon (under the same fingerprint):
  the colon waits in \<open>tmp\<close> and is dropped at the end of the input.
\<close>

theorem trailing_colon_dropped:
  assumes "no_marker pre" and "pre = [] \<or> \<not> takes_lookahead (last pre)"
  shows "\<exists>ou m. Process ne (lexer_of (pre @ [(ColonToken, c)])) src = Inr (ou, m) \<and>
     Process ne (lexer_of pre) src = Inr (ou, m)"
proof -
  have "Process ne (lexer_of (pre @ [(ColonToken, c)])) src = Process ne (lexer_of pre) src"
    using assms by (simp add: Process_def lexer_of_def Let_def trailing_colon)
  moreover obtain ou m where "Process ne (lexer_of pre) src = Inr (ou, m)"
    unfolding Process_def lexer_of_def Let_def
    using mainLoop_EOF_returns(1) [of "genHash ne src" pre] by force
  ultimately show ?thesis by simp
qed

text \<open>The input \<open>a:\<close> gives \<open>a\<close>.\<close>

theorem trailing_colon_dropped_witness:
  "no_marker [(IdentToken, ''a'')] \<and> \<not> takes_lookahead (last [(IdentToken, ''a'')]) \<and>
   Process LittleEndian (lexer_of ([(IdentToken, ''a'')] @ [(ColonToken, '':'')])) ''a:'' = Inr (''a'', Map.empty) \<and>
   Process LittleEndian (lexer_of [(IdentToken, ''a'')]) ''a:'' = Inr (''a'', Map.empty)"
  using trailing_colon_dropped [where pre = "[(IdentToken, ''a'')]" and c = "'':''"
      and ne = LittleEndian and src = "''a:''"]
  by (simp add: takes_lookahead_def Process_def lexer_of_def buf_defs)

text \<open>
  C10 as stated fails: in \<open>::\<close> the input ends right after a colon, which \<open>Process\<close>
  has read as the token after the first colon and written with it; the output is \<open>::\<close>.
\<close>

theorem trailing_colon_counterexample:
  "Process LittleEndian (lexer_of [(ColonToken, '':''), (ColonToken, '':'')]) ''::''
     = Inr (''::'', Map.empty)"
  by (simp add: Process_def lexer_of_def buf_defs)

section \<open>The collector\<close>

text \<open>The ruleset \<open>.a\<close> on a little-endian machine: its fingerprint is \<open>kAC_AA\<close>.\<close>

lemma Process_dot_a:
  "Process LittleEndian (lexer_of dot_a_tokens) ''.a'' = Inr (''.a_kAC_AA'', [''a'' \<mapsto> ''a_kAC_AA''])"
  by (simp add: Process_def lexer_of_def dot_a_tokens_def buf_defs genHash_eval Let_def
      del: adler32_update.simps(2))

lemma Classes_dot_a:
  "Classes LittleEndian (lexer_of dot_a_tokens) empty_Collector ''.a'' =
     (Inr [''a'' \<mapsto> ''a_kAC_AA''],
      \<lparr>rules = [''.a'' \<mapsto> [''a'' \<mapsto> ''a_kAC_AA'']], styles = ''.a_kAC_AA'' @ [CHR 0x0A]\<rparr>)"
  by (simp add: Classes_def Process_dot_a empty_Collector_def)



lemma joinLoop_missing:
  "List.find (\<lambda>n. mapping n = None) names = Some x \<Longrightarrow>
   joinLoop mapping i names sb = Inl (NoClassFound x)"
  by (induction names arbitrary: i sb) (auto simp: Let_def split: if_splits)

text \<open>
  C5. When the mapping of the ruleset lacks one of the requested names, \<open>C\<close> returns no
  node: it panics with \<open>no class found\<close> and the first requested name that the mapping
  lacks.
\<close>

theorem C_missing_class:
  assumes cl: "Classes ne L c rs = (Inr mapping, c1)"
    and name: "name \<in> set className" and absent: "mapping name = None"
  shows "\<exists>missing. List.find (\<lambda>n. mapping n = None) className = Some missing \<and>
     C ne L c rs className = (Inl (NoClassFound missing), c1)"
proof -
  have "List.find (\<lambda>n. mapping n = None) className \<noteq> None"
    using name absent by (auto simp: find_None_iff)
  then obtain missing where f: "List.find (\<lambda>n. mapping n = None) className = Some missing"
    by blast
  have "C ne L c rs className = (Inl (NoClassFound missing), c1)"
  proof (cases "length className = 1")
    case True
    then obtain n where n: "className = [n]"
      by (cases className) simp_all
    then show ?thesis using f cl by (auto simp: C_def split: if_splits)
  next
    case False
    then show ?thesis using cl joinLoop_missing [OF f] by (simp add: C_def)
  qed
  then show ?thesis using f by blast
qed

text \<open>The classes \<open>a\<close> and \<open>b\<close> of the ruleset \<open>.a\<close>: the panic names \<open>b\<close>.\<close>

theorem C_missing_class_witness:
  "Classes LittleEndian (lexer_of dot_a_tokens) empty_Collector ''.a'' =
     (Inr [''a'' \<mapsto> ''a_kAC_AA''],
      \<lparr>rules = [''.a'' \<mapsto> [''a'' \<mapsto> ''a_kAC_AA'']], styles = ''.a_kAC_AA'' @ [CHR 0x0A]\<rparr>) \<and>
   ''b'' \<in> set [''a'', ''b''] \<and> [''a'' \<mapsto> ''a_kAC_AA''] ''b'' = None \<and>
   C LittleEndian (lexer_of dot_a_tokens) empty_Collector ''.a'' [''a'', ''b''] =
     (Inl (NoClassFound ''b''),
      \<lparr>rules = [''.a'' \<mapsto> [''a'' \<mapsto> ''a_kAC_AA'']], styles = ''.a_kAC_AA'' @ [CHR 0x0A]\<rparr>)"
  using C_missing_class [OF Classes_dot_a, of "''b''" "[''a'', ''b'']"] Classes_dot_a
  by simp

lemma Classes_prefix: "prefix (styles c) (styles (snd (Classes ne L c rs)))"
  by (auto simp: Classes_def split: option.splits sum.splits)

lemma C_styles: "styles (snd (C ne L c rs names)) = styles (snd (Classes ne L c rs))"
  by (cases "Classes ne L c rs") (auto simp: C_def split: sum.splits option.splits)

lemma Buffer_WriteTo_suffix: "Buffer_WriteTo w b s = (r, b', s') \<Longrightarrow> suffix b' b"
  by (auto simp: Buffer_WriteTo_def Let_def suffix_drop split: prod.splits if_splits)

lemma Buffer_WriteTo_ok: "Buffer_WriteTo w b s = (Inr None, b', s') \<Longrightarrow> b' = []"
  by (auto simp: Buffer_WriteTo_def Let_def split: prod.splits if_splits)

text \<open>
  C6, as amended. \<open>Classes\<close>, \<open>C\<close> and \<open>R\<close> leave the buffer unchanged or longer at
  its end. \<open>Render\<close> hands the buffer's bytes to the sink: the buffer it leaves is an end
  piece of the one it found, and is empty when it returns no error; into a sink that takes
  everything it writes \<open><style>\<close>, the accumulated bytes and \<open></style>\<close>.
\<close>

theorem buffer_lifecycle:
  "prefix (styles c) (styles (snd (Classes ne L c rs))) \<and>
   prefix (styles c) (styles (snd (C ne L c rs names))) \<and>
   prefix (styles c) (styles (snd (R ne L c rs))) \<and>
   suffix (styles (fst (snd (Render w c s)))) (styles c) \<and>
   (fst (Render w c s) = Inr None \<longrightarrow> styles (fst (snd (Render w c s))) = []) \<and>
   Render Buffer_Write c b = (Inr None, c\<lparr>styles := []\<rparr>, b @ ''<style>'' @ styles c @ ''</style>'')"
proof -
  have 1: "suffix (styles (fst (snd (Render w c s)))) (styles c)"
    by (auto simp: Render_def split: prod.splits option.splits sum.splits
        dest: Buffer_WriteTo_suffix)
  have 2: "fst (Render w c s) = Inr None \<longrightarrow> styles (fst (snd (Render w c s))) = []"
    by (auto simp: Render_def split: prod.splits option.splits sum.splits
        dest: Buffer_WriteTo_ok)
  have 3: "Render Buffer_Write c b = (Inr None, c\<lparr>styles := []\<rparr>, b @ ''<style>'' @ styles c @ ''</style>'')"
    by (simp add: Render_def Buffer_Write_def Buffer_WriteTo_def Let_def)
  show ?thesis
    using 1 2 3 by (simp add: Classes_prefix C_styles R_def)
qed

text \<open>A render of the buffer \<open>.a_kAC_AA\<close> into an empty sink.\<close>

theorem buffer_lifecycle_witness:
  "fst (Render Buffer_Write \<lparr>rules = Map.empty, styles = ''.a_kAC_AA''\<rparr> []) = Inr None \<and>
   styles (fst (snd (Render Buffer_Write \<lparr>rules = Map.empty, styles = ''.a_kAC_AA''\<rparr> []))) = [] \<and>
   snd (snd (Render Buffer_Write \<lparr>rules = Map.empty, styles = ''.a_kAC_AA''\<rparr> [])) =
     ''<style>.a_kAC_AA</style>''"
  using buffer_lifecycle [where w = Buffer_Write
      and c = "\<lparr>rules = Map.empty, styles = ''.a_kAC_AA''\<rparr>" and s = "[]" and b = "[]"]
  by simp

text \<open>
  C6 as stated fails. After \<open>Classes\<close> on \<open>.a\<close> the buffer holds the rewritten rule and
  a newline; the first render emits them and leaves the buffer empty, the second render
  emits \<open><style></style>\<close>.
\<close>

theorem render_twice_counterexample:
  "styles (snd (Classes LittleEndian (lexer_of dot_a_tokens) empty_Collector ''.a'')) =
     ''.a_kAC_AA'' @ [CHR 0x0A] \<and>
   snd (snd (Render Buffer_Write
     (snd (Classes LittleEndian (lexer_of dot_a_tokens) empty_Collector ''.a'')) [])) =
     ''<style>.a_kAC_AA'' @ [CHR 0x0A] @ ''</style>'' \<and>
   styles (fst (snd (Render Buffer_Write
     (snd (Classes LittleEndian (lexer_of dot_a_tokens) empty_Collector ''.a'')) []))) = [] \<and>
   snd (snd (Render Buffer_Write (fst (snd (Render Buffer_Write
     (snd (Classes LittleEndian (lexer_of dot_a_tokens) empty_Collector ''.a'')) []))) [])) =
     ''<style></style>''"
  by (simp add: Classes_dot_a Render_def Buffer_Write_def Buffer_WriteTo_def Let_def)


end
